theory Spec2Isabelle
  imports Main "HOL-Library.Sublist"
begin

section \<open>Data model\<close>

text \<open>
  The program plays noughts and crosses on a list of nine cells. The only strings it
  uses as player symbols are \<^verbatim>\<open>"X"\<close> and \<^verbatim>\<open>"O"\<close> (the keys of \<^verbatim>\<open>Game.players\<close>, the
  values of \<^verbatim>\<open>current_player\<close>, the arguments of \<^verbatim>\<open>is_winner\<close> and \<^verbatim>\<open>evaluate\<close>); they
  are the datatype \<open>symbol\<close>. A cell holds \<^verbatim>\<open>" "\<close> or a player symbol: it is a
  \<open>symbol option\<close>, with \<open>None\<close> for the blank \<^verbatim>\<open>" "\<close>. The class \<^verbatim>\<open>State\<close> has the
  single attribute \<^verbatim>\<open>board\<close>. \<^verbatim>\<open>State.__init__\<close> builds a list of nine cells and no
  operation changes its length, so the theorems that depend on the length are stated
  for boards of length nine. The exceptions the search can raise are the datatype
  \<open>error\<close>; a function that can raise returns \<open>error + result\<close>.
\<close>

datatype symbol = MarkX | MarkO

type_synonym cell = "symbol option"

record State =
  board :: "cell list"

datatype error = TypeError | ValueError | IndexError

text \<open>\<^verbatim>\<open>"O" if player == "X" else "X"\<close>\<close>

definition opponent :: "symbol \<Rightarrow> symbol" where
  "opponent player = (if player = MarkX then MarkO else MarkX)"

section \<open>The methods of State\<close>

text \<open>
  \<^verbatim>\<open>is_winner\<close>: the rows start at \<^verbatim>\<open>range(0, 9, 3)\<close> and step through
  \<^verbatim>\<open>range(3)\<close>, the columns start at \<^verbatim>\<open>range(3)\<close> and step through
  \<^verbatim>\<open>range(0, 9, 3)\<close>, the diagonals are \<^verbatim>\<open>range(0, 9, 4)\<close> and \<^verbatim>\<open>range(2, 7, 2)\<close>.
\<close>

definition is_winner :: "State \<Rightarrow> symbol \<Rightarrow> bool" where
  "is_winner state symbol =
     (list_ex (\<lambda>i. list_all (\<lambda>j. board state ! (i + j) = Some symbol) [0, 1, 2]) [0, 3, 6]
      \<or> list_ex (\<lambda>i. list_all (\<lambda>j. board state ! (i + j) = Some symbol) [0, 3, 6]) [0, 1, 2]
      \<or> list_all (\<lambda>i. board state ! i = Some symbol) [0, 4, 8]
      \<or> list_all (\<lambda>i. board state ! i = Some symbol) [2, 4, 6])"

definition is_full :: "State \<Rightarrow> bool" where
  "is_full state = (None \<notin> set (board state))"

definition is_terminal :: "State \<Rightarrow> bool" where
  "is_terminal state = (is_winner state MarkX \<or> is_winner state MarkO \<or> is_full state)"

definition evaluate :: "State \<Rightarrow> symbol \<Rightarrow> int" where
  "evaluate state player =
     (let corners = [0, 2, 6, 8];
          center = 4;
          sides = [1, 3, 5, 7];
          sign = (if player = MarkX then - 1 else 1);
          score = fold (\<lambda>pos score. if board state ! pos = Some player then score + 3 else score)
                    corners 0;
          score = fold (\<lambda>pos score. if board state ! pos = Some player then score + 2 else score)
                    sides score;
          score = (if board state ! center = Some player then score + 4 else score)
      in sign * score)"

text \<open>
  The weights in the words of the specification: 4 for the centre cell, 3 for a corner,
  2 for an edge.
\<close>

definition cell_weight :: "nat \<Rightarrow> int" where
  "cell_weight i =
     (if i = 4 then 4
      else if i \<in> set [0, 2, 6, 8] then 3
      else if i \<in> set [1, 3, 5, 7] then 2
      else 0)"

definition occupied :: "State \<Rightarrow> symbol \<Rightarrow> nat list" where
  "occupied state player = filter (\<lambda>i. board state ! i = Some player) [0..<9]"

section \<open>The search\<close>

text \<open>
  The window bounds \<^verbatim>\<open>alpha\<close> and \<^verbatim>\<open>beta\<close> start at \<^verbatim>\<open>-math.inf\<close> and
  \<^verbatim>\<open>math.inf\<close> and are later replaced by integer scores; \<open>bound\<close> is the integers
  extended by the two infinities, with Python's comparison between them.
\<close>

datatype bound = NegInf | Fin int | PosInf

instantiation bound :: linorder
begin

fun less_eq_bound :: "bound \<Rightarrow> bound \<Rightarrow> bool" where
  "less_eq_bound NegInf y = True"
| "less_eq_bound x PosInf = True"
| "less_eq_bound (Fin a) (Fin b) = (a \<le> b)"
| "less_eq_bound x y = False"

definition less_bound :: "bound \<Rightarrow> bound \<Rightarrow> bool" where
  "less_bound x y = (x \<le> y \<and> \<not> y \<le> x)"

instance
proof
  fix x y z :: bound
  show "(x < y) = (x \<le> y \<and> \<not> y \<le> x)" by (simp add: less_bound_def)
  show "x \<le> x" by (cases x) simp_all
  show "x \<le> y \<Longrightarrow> y \<le> z \<Longrightarrow> x \<le> z" by (cases x; cases y; cases z) simp_all
  show "x \<le> y \<Longrightarrow> y \<le> x \<Longrightarrow> x = y" by (cases x; cases y) simp_all
  show "x \<le> y \<or> y \<le> x" by (cases x; cases y) auto
qed

end

text \<open>
  Each of the four leaf branches prints a trace line that formats \<^verbatim>\<open>last_move + 1\<close>
  and then returns the score with the move \<^verbatim>\<open>None\<close>. With \<^verbatim>\<open>last_move = None\<close>
  (the default of the parameter) the addition raises \<^verbatim>\<open>TypeError\<close> before the
  return is reached. The printed text and the parameter \<^verbatim>\<open>indent\<close>, which only
  shapes that text, are not modelled.
\<close>

definition trace_leaf :: "nat option \<Rightarrow> int \<Rightarrow> error + (int \<times> nat option)" where
  "trace_leaf last_move score =
     (case last_move of None \<Rightarrow> Inl TypeError | Some m \<Rightarrow> Inr (score, None))"

text \<open>
  \<^verbatim>\<open>min(scores)\<close> and \<^verbatim>\<open>max(scores)\<close> raise \<^verbatim>\<open>ValueError\<close> on an empty list;
  \<^verbatim>\<open>scores.index(v)\<close> is the first position of \<^verbatim>\<open>v\<close> and raises \<^verbatim>\<open>ValueError\<close>
  when \<^verbatim>\<open>v\<close> does not occur.
\<close>

fun py_min :: "int list \<Rightarrow> error + int" where
  "py_min [] = Inl ValueError"
| "py_min (x # xs) = Inr (fold min xs x)"

fun py_max :: "int list \<Rightarrow> error + int" where
  "py_max [] = Inl ValueError"
| "py_max (x # xs) = Inr (fold max xs x)"

fun list_index :: "int list \<Rightarrow> int \<Rightarrow> error + nat" where
  "list_index [] v = Inl ValueError"
| "list_index (x # xs) v =
     (if x = v then Inr 0
      else case list_index xs v of Inl e \<Rightarrow> Inl e | Inr k \<Rightarrow> Inr (Suc k))"

text \<open>The selection after the loop (the last lines of \<^verbatim>\<open>minimax_pruning\<close>).\<close>

definition select_best :: "symbol \<Rightarrow> int list \<Rightarrow> nat list \<Rightarrow> error + (int \<times> nat option)" where
  "select_best player scores moves =
     (case (if player = MarkX then py_min scores else py_max scores) of
        Inl e \<Rightarrow> Inl e
      | Inr best \<Rightarrow>
          (case list_index scores best of
             Inl e \<Rightarrow> Inl e
           | Inr best_score_index \<Rightarrow>
               Inr (scores ! best_score_index, Some (moves ! best_score_index))))"

text \<open>The number of blank cells: the search terminates because each move fills one.\<close>

definition empties :: "State \<Rightarrow> nat" where
  "empties state = length (filter (\<lambda>c. c = None) (board state))"

lemma empties_place:
  "i < length (board state) \<Longrightarrow> board state ! i = None \<Longrightarrow>
   empties \<lparr>board = (board state)[i := Some player]\<rparr> < empties state"
proof -
  have "i < length b \<Longrightarrow> b ! i = None \<Longrightarrow>
        length (filter (\<lambda>c. c = None) (b[i := Some player])) < length (filter (\<lambda>c. c = None) b)"
    for b :: "cell list"
  proof (induction b arbitrary: i)
    case Nil
    then show ?case by simp
  next
    case (Cons c b)
    show ?case
    proof (cases i)
      case 0
      with Cons.prems show ?thesis
        by (simp add: less_Suc_eq_le length_filter_le)
    next
      case (Suc j)
      with Cons.prems have "j < length b" "b ! j = None" by simp_all
      from Cons.IH [OF this] show ?thesis using Suc by simp
    qed
  qed
  then show "i < length (board state) \<Longrightarrow> board state ! i = None \<Longrightarrow>
   empties \<lparr>board = (board state)[i := Some player]\<rparr> < empties state"
    by (simp add: empties_def)
qed

text \<open>
  \<^verbatim>\<open>minimax_pruning\<close> and its loop \<^verbatim>\<open>for i in range(9)\<close>. The loop is \<open>explore\<close>: it
  carries the indices still to visit, the lists \<^verbatim>\<open>scores\<close> and \<^verbatim>\<open>moves\<close> built so far and
  the current window, and leaves early on \<^verbatim>\<open>beta <= alpha\<close>. The successor state is a new
  state whose board is a copy of the parent's with cell \<open>i\<close> set to the mover; the
  recursive call passes \<open>i\<close> as \<^verbatim>\<open>last_move\<close>. \<^verbatim>\<open>depth\<close> is a Python integer: only
  \<^verbatim>\<open>depth == 0\<close> stops the descent.
\<close>

function minimax_pruning ::
    "State \<Rightarrow> symbol \<Rightarrow> int \<Rightarrow> bound \<Rightarrow> bound \<Rightarrow> nat option \<Rightarrow> error + (int \<times> nat option)"
  and explore ::
    "State \<Rightarrow> symbol \<Rightarrow> int \<Rightarrow> bound \<Rightarrow> bound \<Rightarrow> nat list \<Rightarrow> int list \<Rightarrow> nat list
       \<Rightarrow> error + (int list \<times> nat list)"
where
  "minimax_pruning state player depth alpha beta last_move =
     (if is_winner state MarkX then trace_leaf last_move (- 100)
      else if is_winner state MarkO then trace_leaf last_move 100
      else if is_full state then trace_leaf last_move 0
      else if depth = 0 then trace_leaf last_move (evaluate state (opponent player))
      else case explore state player depth alpha beta [0..<9] [] [] of
             Inl e \<Rightarrow> Inl e
           | Inr (scores, moves) \<Rightarrow> select_best player scores moves)"
| "explore state player depth alpha beta [] scores moves = Inr (scores, moves)"
| "explore state player depth alpha beta (i # rest) scores moves =
     (if \<not> i < length (board state) then Inl IndexError
      else if board state ! i = None then
        (case minimax_pruning \<lparr>board = (board state)[i := Some player]\<rparr> (opponent player)
                (depth - 1) alpha beta (Some i) of
           Inl e \<Rightarrow> Inl e
         | Inr (score, _) \<Rightarrow>
             (let scores = scores @ [score];
                  moves = moves @ [i + 1];
                  beta = (if player = MarkX then min beta (Fin score) else beta);
                  alpha = (if player = MarkX then alpha else max alpha (Fin score))
              in if beta \<le> alpha then Inr (scores, moves)
                 else explore state player depth alpha beta rest scores moves))
      else explore state player depth alpha beta rest scores moves)"
  by pat_completeness auto
termination
  by (relation "inv_image (less_than <*lex*> less_than)
        (\<lambda>x. case x of
           Inl (state, player, depth, alpha, beta, last_move) \<Rightarrow> (empties state, 10)
         | Inr (state, player, depth, alpha, beta, rest, scores, moves) \<Rightarrow>
             (empties state, length rest))")
     (auto simp: empties_place)

declare minimax_pruning.simps [simp del] explore.simps [simp del]

text \<open>
  The reference search in the words of the specification: an unpruned, full-width
  minimax with the same terminal scoring, the same evaluation at depth 0 and the legal
  moves in ascending index order. The mover X takes the minimum of the children's
  scores, the mover O the maximum.
\<close>

definition legal_moves :: "State \<Rightarrow> nat list" where
  "legal_moves state =
     filter (\<lambda>i. i < length (board state) \<and> board state ! i = None) [0..<9]"

definition successor :: "State \<Rightarrow> nat \<Rightarrow> symbol \<Rightarrow> State" where
  "successor state i player = \<lparr>board = (board state)[i := Some player]\<rparr>"

function minimax_full :: "State \<Rightarrow> symbol \<Rightarrow> int \<Rightarrow> int" where
  "minimax_full state player depth =
     (if is_winner state MarkX then - 100
      else if is_winner state MarkO then 100
      else if is_full state then 0
      else if depth = 0 then evaluate state (opponent player)
      else let scores = map (\<lambda>i. minimax_full (successor state i player) (opponent player)
                                   (depth - 1))
                          (legal_moves state)
           in if player = MarkX then Min (set scores) else Max (set scores))"
  by pat_completeness auto
termination
  by (relation "measure (\<lambda>(state, player, depth). empties state)")
     (auto simp: empties_place legal_moves_def successor_def)

declare minimax_full.simps [simp del]

section \<open>Auxiliary notions for the proofs\<close>

text \<open>The extremum the selection takes: the minimum for the mover X, the maximum for O.\<close>

definition best_of :: "symbol \<Rightarrow> int list \<Rightarrow> int" where
  "best_of player scores = (if player = MarkX then Min (set scores) else Max (set scores))"

text \<open>The window after a child has returned \<open>score\<close>.\<close>

definition new_alpha :: "symbol \<Rightarrow> bound \<Rightarrow> int \<Rightarrow> bound" where
  "new_alpha player alpha score = (if player = MarkX then alpha else max alpha (Fin score))"

definition new_beta :: "symbol \<Rightarrow> bound \<Rightarrow> int \<Rightarrow> bound" where
  "new_beta player beta score = (if player = MarkX then min beta (Fin score) else beta)"

text \<open>The unpruned score of the successor reached by playing cell \<open>i\<close>.\<close>

definition child_full :: "State \<Rightarrow> symbol \<Rightarrow> int \<Rightarrow> nat \<Rightarrow> int" where
  "child_full state player depth i =
     minimax_full (successor state i player) (opponent player) (depth - 1)"

text \<open>
  The invariant of the pruned search against the unpruned score \<open>m\<close>, for a window
  \<open>a < b\<close>: a score at or below \<open>a\<close> is reported at or below \<open>a\<close>, a score at or
  above \<open>b\<close> is reported at or above \<open>b\<close>, and a score inside the window is reported
  exactly. \<open>loop_ok\<close> is the same for the scores \<open>vs\<close> the loop collects against the
  unpruned scores \<open>ms\<close> of all remaining children.
\<close>

definition ab_ok :: "bound \<Rightarrow> bound \<Rightarrow> int \<Rightarrow> int \<Rightarrow> bool" where
  "ab_ok a b v m =
     ((Fin m \<le> a \<longrightarrow> Fin v \<le> a) \<and> (b \<le> Fin m \<longrightarrow> b \<le> Fin v)
      \<and> (a < Fin m \<and> Fin m < b \<longrightarrow> v = m))"

definition loop_ok :: "symbol \<Rightarrow> bound \<Rightarrow> bound \<Rightarrow> int list \<Rightarrow> int list \<Rightarrow> bool" where
  "loop_ok player a b vs ms =
     (if ms = [] then vs = []
      else vs \<noteq> [] \<and> ab_ok a b (best_of player vs) (best_of player ms))"

text \<open>The score of a leaf, in the order the source tests the four leaf branches.\<close>

definition leaf_score :: "State \<Rightarrow> symbol \<Rightarrow> int" where
  "leaf_score state player =
     (if is_winner state MarkX then - 100
      else if is_winner state MarkO then 100
      else if is_full state then 0
      else evaluate state (opponent player))"

section \<open>Example positions\<close>

text \<open>A position used to instantiate the theorems: O to move, cells 6 and 8 blank.\<close>

definition board_a :: State where
  "board_a = \<lparr>board = [Some MarkX, Some MarkO, Some MarkX,
                        Some MarkO, Some MarkO, Some MarkX,
                        None, Some MarkX, None]\<rparr>"

text \<open>Further positions: X has the top row; the empty board; one blank cell left.\<close>

definition board_x_won :: State where
  "board_x_won = \<lparr>board = [Some MarkX, Some MarkX, Some MarkX,
                            Some MarkO, Some MarkO, None,
                            None, None, None]\<rparr>"

definition board_empty :: State where
  "board_empty = \<lparr>board = replicate 9 None\<rparr>"

definition board_last :: State where
  "board_last = \<lparr>board = [Some MarkX, Some MarkO, Some MarkX,
                           Some MarkX, Some MarkO, Some MarkO,
                           Some MarkO, Some MarkX, None]\<rparr>"

text \<open>The position of the immediate win: O in cells 0 and 1, X in cells 3 and 4, O to move.\<close>

definition board_b :: State where
  "board_b = \<lparr>board = [Some MarkO, Some MarkO, None,
                        Some MarkX, Some MarkX, None,
                        None, None, None]\<rparr>"

section \<open>The search on a store of objects\<close>

text \<open>
  The search with the objects made explicit. A store holds the \<^verbatim>\<open>State\<close> objects (each
  the address of the list its attribute \<^verbatim>\<open>board\<close> refers to) and the list objects;
  an address is a position in the store and allocation appends. \<open>writes\<close> records the
  address of every list an item assignment has targeted.
\<close>

record store =
  state_objs :: "nat list"
  list_objs :: "cell list list"
  writes :: "nat list"

text \<open>The value of \<^verbatim>\<open>state.board\<close> in a store, as a \<open>State\<close> of the value model.\<close>

definition view :: "store \<Rightarrow> nat \<Rightarrow> State" where
  "view st state = \<lparr>board = list_objs st ! (state_objs st ! state)\<rparr>"

text \<open>
  \<^verbatim>\<open>State()\<close> allocates the list \<^verbatim>\<open>[" "] * 9\<close> and a \<^verbatim>\<open>State\<close> object referring to it;
  \<^verbatim>\<open>board.copy()\<close> allocates a list with the same cells; \<^verbatim>\<open>new_state.board = copy\<close>
  rebinds the attribute; \<^verbatim>\<open>board[i] = v\<close> writes one cell of the list the attribute
  refers to.
\<close>

definition new_State :: "store \<Rightarrow> nat \<times> store" where
  "new_State st =
     (length (state_objs st),
      st\<lparr>list_objs := list_objs st @ [replicate 9 None],
         state_objs := state_objs st @ [length (list_objs st)]\<rparr>)"

definition list_copy :: "store \<Rightarrow> nat \<Rightarrow> nat \<times> store" where
  "list_copy st l = (length (list_objs st), st\<lparr>list_objs := list_objs st @ [list_objs st ! l]\<rparr>)"

definition set_board :: "store \<Rightarrow> nat \<Rightarrow> nat \<Rightarrow> store" where
  "set_board st state l = st\<lparr>state_objs := (state_objs st)[state := l]\<rparr>"

definition list_setitem :: "store \<Rightarrow> nat \<Rightarrow> nat \<Rightarrow> cell \<Rightarrow> store" where
  "list_setitem st l i v =
     st\<lparr>list_objs := (list_objs st)[l := (list_objs st ! l)[i := v]],
        writes := writes st @ [l]\<rparr>"

text \<open>The three statements that build \<^verbatim>\<open>new_state\<close> in the loop.\<close>

definition make_successor :: "store \<Rightarrow> nat \<Rightarrow> nat \<Rightarrow> symbol \<Rightarrow> nat \<times> store" where
  "make_successor st state i player =
     (let (new_state, st) = new_State st;
          (copy, st) = list_copy st (state_objs st ! state);
          st = set_board st new_state copy;
          st = list_setitem st (state_objs st ! new_state) i (Some player)
      in (new_state, st))"

text \<open>
  \<^verbatim>\<open>minimax_pruning\<close> and its loop, passing the store. The first argument bounds the
  depth of nested calls; \<open>None\<close> is returned when it is used up. The methods of
  \<^verbatim>\<open>State\<close> only read, so they are applied to the \<open>view\<close> of the state.
\<close>

fun minimax_pruning_st ::
    "nat \<Rightarrow> store \<Rightarrow> nat \<Rightarrow> symbol \<Rightarrow> int \<Rightarrow> bound \<Rightarrow> bound \<Rightarrow> nat option
       \<Rightarrow> (error + (int \<times> nat option)) option \<times> store"
  and explore_st ::
    "nat \<Rightarrow> store \<Rightarrow> nat \<Rightarrow> symbol \<Rightarrow> int \<Rightarrow> bound \<Rightarrow> bound \<Rightarrow> nat list \<Rightarrow> int list \<Rightarrow> nat list
       \<Rightarrow> (error + (int list \<times> nat list)) option \<times> store"
where
  "minimax_pruning_st 0 st state player depth alpha beta last_move = (None, st)"
| "minimax_pruning_st (Suc fuel) st state player depth alpha beta last_move =
     (if is_winner (view st state) MarkX then (Some (trace_leaf last_move (- 100)), st)
      else if is_winner (view st state) MarkO then (Some (trace_leaf last_move 100), st)
      else if is_full (view st state) then (Some (trace_leaf last_move 0), st)
      else if depth = 0
        then (Some (trace_leaf last_move (evaluate (view st state) (opponent player))), st)
      else case explore_st fuel st state player depth alpha beta [0..<9] [] [] of
             (None, st) \<Rightarrow> (None, st)
           | (Some (Inl e), st) \<Rightarrow> (Some (Inl e), st)
           | (Some (Inr (scores, moves)), st) \<Rightarrow> (Some (select_best player scores moves), st))"
| "explore_st fuel st state player depth alpha beta [] scores moves =
     (Some (Inr (scores, moves)), st)"
| "explore_st fuel st state player depth alpha beta (i # rest) scores moves =
     (if \<not> i < length (board (view st state)) then (Some (Inl IndexError), st)
      else if board (view st state) ! i = None then
        (let (new_state, st) = make_successor st state i player
         in case minimax_pruning_st fuel st new_state (opponent player) (depth - 1) alpha beta
                   (Some i) of
              (None, st) \<Rightarrow> (None, st)
            | (Some (Inl e), st) \<Rightarrow> (Some (Inl e), st)
            | (Some (Inr (score, _)), st) \<Rightarrow>
                (let scores = scores @ [score];
                     moves = moves @ [i + 1];
                     beta = (if player = MarkX then min beta (Fin score) else beta);
                     alpha = (if player = MarkX then alpha else max alpha (Fin score))
                 in if beta \<le> alpha then (Some (Inr (scores, moves)), st)
                    else explore_st fuel st state player depth alpha beta rest scores moves))
      else explore_st fuel st state player depth alpha beta rest scores moves)"

text \<open>
  A reference to a \<^verbatim>\<open>State\<close> object is valid when the object and its list exist.
  A store extends another when every object of the old store is still there unchanged
  and every list written since was allocated after the old store.
\<close>

definition valid :: "store \<Rightarrow> nat \<Rightarrow> bool" where
  "valid st state =
     (state < length (state_objs st) \<and> state_objs st ! state < length (list_objs st))"

definition extends :: "store \<Rightarrow> store \<Rightarrow> bool" where
  "extends st st' =
     (prefix (state_objs st) (state_objs st')
      \<and> prefix (list_objs st) (list_objs st')
      \<and> prefix (writes st) (writes st')
      \<and> list_all (\<lambda>l. length (list_objs st) \<le> l) (drop (length (writes st)) (writes st')))"

text \<open>A store with one \<^verbatim>\<open>State\<close> object, whose board has cell 8 blank.\<close>

definition store_a :: store where
  "store_a = \<lparr>state_objs = [0],
              list_objs = [[Some MarkX, Some MarkO, Some MarkX,
                            Some MarkX, Some MarkO, Some MarkO,
                            Some MarkO, Some MarkX, None]],
              writes = []\<rparr>"

section \<open>The static evaluation\<close>

lemma upt_9: "[0..<9] = [0, 1, 2, 3, 4, 5, 6, 7, 8::nat]"
  by code_simp

lemma fold_cond_add:
  "fold (\<lambda>pos score. if P pos then score + w else score) xs (a::int)
     = a + sum_list (map (\<lambda>pos. if P pos then w else 0) xs)"
  by (induction xs arbitrary: a) simp_all

lemma cond_add: "(if c then a + w else a) = a + (if c then w else (0::int))"
  by simp

lemma cell_weight_values:
  "cell_weight 0 = 3" "cell_weight 1 = 2" "cell_weight 2 = 3"
  "cell_weight 3 = 2" "cell_weight 4 = 4" "cell_weight 5 = 2"
  "cell_weight 6 = 3" "cell_weight 7 = 2" "cell_weight 8 = 3"
  "cell_weight (Suc 0) = 2"
  by (simp_all add: cell_weight_def)

text \<open>
  Claim C4. \<^verbatim>\<open>State.evaluate(symbol)\<close> is the sum, over the cells 0..8 that hold the
  symbol, of the weights 4 (centre), 3 (corner) and 2 (edge), times -1 for X and
  times +1 for O.
\<close>

theorem evaluate_weighted_sum:
  "evaluate state player =
     (if player = MarkX then - 1 else 1) * sum_list (map cell_weight (occupied state player))"
  unfolding evaluate_def occupied_def Let_def fold_cond_add sum_list_map_filter' upt_9 cond_add
  by (simp add: cell_weight_values ac_simps split del: if_split cong: if_cong)

section \<open>The selection after the loop\<close>

lemma not_full_legal:
  assumes "length (board state) = 9" "\<not> is_full state"
  shows "filter (\<lambda>i. board state ! i = None) [0..<9] \<noteq> []"
proof -
  from assms(2) have "None \<in> set (board state)" by (simp add: is_full_def)
  then obtain i where "i < length (board state)" "board state ! i = None"
    by (auto simp: in_set_conv_nth)
  with assms(1) have "i \<in> set [0..<9]" by simp
  with \<open>board state ! i = None\<close> show ?thesis
    by (auto simp: filter_empty_conv)
qed

lemma list_index_first:
  "v \<in> set xs \<Longrightarrow>
   \<exists>k. list_index xs v = Inr k \<and> k < length xs \<and> xs ! k = v \<and> (\<forall>j<k. xs ! j \<noteq> v)"
proof (induction xs)
  case Nil
  then show ?case by simp
next
  case (Cons x xs)
  show ?case
  proof (cases "x = v")
    case True
    then show ?thesis by simp
  next
    case False
    with Cons.prems have "v \<in> set xs" by simp
    from Cons.IH [OF this] obtain k where
      k: "list_index xs v = Inr k" "k < length xs" "xs ! k = v" "\<forall>j<k. xs ! j \<noteq> v"
      by blast
    have "\<forall>j<Suc k. (x # xs) ! j \<noteq> v"
      using False k(4) by (auto simp: less_Suc_eq_0_disj)
    with False k show ?thesis by simp
  qed
qed

lemma py_min_Min: "xs \<noteq> [] \<Longrightarrow> py_min xs = Inr (Min (set xs))"
  by (cases xs) (simp_all add: Min.set_eq_fold [symmetric])

lemma py_max_Max: "xs \<noteq> [] \<Longrightarrow> py_max xs = Inr (Max (set xs))"
  by (cases xs) (simp_all add: Max.set_eq_fold [symmetric])

lemma best_of_mem: "scores \<noteq> [] \<Longrightarrow> best_of player scores \<in> set scores"
  by (simp add: best_of_def)

lemma select_best_first:
  assumes "scores \<noteq> []"
  shows "\<exists>k. k < length scores \<and> scores ! k = best_of player scores
            \<and> (\<forall>j<k. scores ! j \<noteq> best_of player scores)
            \<and> select_best player scores moves = Inr (best_of player scores, Some (moves ! k))"
proof -
  from list_index_first [OF best_of_mem [OF assms, of player]] obtain k where
    k: "list_index scores (best_of player scores) = Inr k" "k < length scores"
       "scores ! k = best_of player scores" "\<forall>j<k. scores ! j \<noteq> best_of player scores"
    by blast
  have "(if player = MarkX then py_min scores else py_max scores) = Inr (best_of player scores)"
    using assms by (simp add: py_min_Min py_max_Max best_of_def)
  with k show ?thesis
    by (auto simp: select_best_def)
qed

section \<open>The loop and the shape of its result\<close>

lemma trace_leaf_Some [simp]: "trace_leaf (Some m) score = Inr (score, None)"
  by (simp add: trace_leaf_def)

lemma trace_leaf_None [simp]: "trace_leaf None score = Inl TypeError"
  by (simp add: trace_leaf_def)

lemma explore_taken:
  "i < length (board state) \<Longrightarrow> board state ! i \<noteq> None \<Longrightarrow>
   explore state player depth alpha beta (i # rest) scores moves
     = explore state player depth alpha beta rest scores moves"
  by (auto simp: explore.simps)

lemma explore_blank:
  "i < length (board state) \<Longrightarrow> board state ! i = None \<Longrightarrow>
   minimax_pruning (successor state i player) (opponent player) (depth - 1) alpha beta (Some i)
     = Inr (v, mv) \<Longrightarrow>
   explore state player depth alpha beta (i # rest) scores moves
     = (if new_beta player beta v \<le> new_alpha player alpha v
        then Inr (scores @ [v], moves @ [Suc i])
        else explore state player depth (new_alpha player alpha v) (new_beta player beta v) rest
               (scores @ [v]) (moves @ [Suc i]))"
  by (simp add: explore.simps successor_def new_alpha_def new_beta_def Let_def)

lemma shape:
  "length (board state) = 9 \<Longrightarrow> last_move \<noteq> None \<or> (\<not> is_terminal state \<and> depth \<noteq> 0) \<Longrightarrow>
     \<exists>v mv. minimax_pruning state player depth alpha beta last_move = Inr (v, mv)"
  "length (board state) = 9 \<Longrightarrow> set rest \<subseteq> {..<9} \<Longrightarrow>
     \<exists>vs. explore state player depth alpha beta rest scores moves
            = Inr (scores @ vs,
                   moves @ map Suc (take (length vs) (filter (\<lambda>i. board state ! i = None) rest)))
          \<and> length vs \<le> length (filter (\<lambda>i. board state ! i = None) rest)
          \<and> (filter (\<lambda>i. board state ! i = None) rest \<noteq> [] \<longrightarrow> vs \<noteq> [])"
proof (induction state player depth alpha beta last_move
         and state player depth alpha beta rest scores moves
       rule: minimax_pruning_explore.induct)
  case (1 state player depth alpha beta last_move)
  show ?case
  proof (cases "is_terminal state \<or> depth = 0")
    case True
    with "1.prems" obtain m where "last_move = Some m" by auto
    with True show ?thesis
      by (auto simp: minimax_pruning.simps is_terminal_def)
  next
    case False
    then have nt: "\<not> is_winner state MarkX" "\<not> is_winner state MarkO" "\<not> is_full state" "depth \<noteq> 0"
      by (simp_all add: is_terminal_def)
    have "set [0..<9] \<subseteq> {..<9::nat}" by auto
    from "1.IH" [OF nt "1.prems"(1) this] obtain vs where
      vs: "explore state player depth alpha beta [0..<9] [] []
            = Inr (vs, map Suc (take (length vs) (filter (\<lambda>i. board state ! i = None) [0..<9])))"
          "vs \<noteq> []"
      using not_full_legal [OF "1.prems"(1) nt(3)] by auto
    from select_best_first [OF vs(2)] obtain k where
      "select_best player vs (map Suc (take (length vs) (filter (\<lambda>i. board state ! i = None) [0..<9])))
        = Inr (best_of player vs, Some (map Suc (take (length vs) (filter (\<lambda>i. board state ! i = None) [0..<9])) ! k))"
      by blast
    with nt vs(1) show ?thesis
      by (simp add: minimax_pruning.simps)
  qed
next
  case (2 state player depth alpha beta scores moves)
  then show ?case by (simp add: explore.simps)
next
  case (3 state player depth alpha beta i rest scores moves)
  let ?blank = "\<lambda>i. board state ! i = None"
  from "3.prems" have i: "i < length (board state)" and rest: "set rest \<subseteq> {..<9}"
    by simp_all
  show ?case
  proof (cases "board state ! i = None")
    case False
    have eq: "explore state player depth alpha beta (i # rest) scores moves
                = explore state player depth alpha beta rest scores moves"
      by (rule explore_taken [OF i False])
    have f: "filter ?blank (i # rest) = filter ?blank rest"
      using False by auto
    show ?thesis
      unfolding eq f by (rule "3.IH"(3) [OF _ False "3.prems"(1) rest]) (use i in simp)
  next
    case True
    from "3.IH"(1) [OF _ True] i "3.prems"(1) obtain v mv where
      child: "minimax_pruning (successor state i player) (opponent player) (depth - 1) alpha beta
                (Some i) = Inr (v, mv)"
      by (auto simp: successor_def)
    note step = explore_blank [OF i True child, of rest scores moves]
    show ?thesis
    proof (cases "new_beta player beta v \<le> new_alpha player alpha v")
      case cut: True
      have "explore state player depth alpha beta (i # rest) scores moves
              = Inr (scores @ [v], moves @ map Suc (take (length [v]) (filter ?blank (i # rest))))"
        using step cut True by simp
      moreover have "length [v] \<le> length (filter ?blank (i # rest))"
        using True by simp
      ultimately show ?thesis by blast
    next
      case go: False
      from "3.IH"(2) [OF _ True child [unfolded successor_def] refl refl refl refl refl _ "3.prems"(1) rest]
        i go
      obtain vs where
        vs: "explore state player depth (new_alpha player alpha v) (new_beta player beta v) rest
               (scores @ [v]) (moves @ [Suc i])
             = Inr ((scores @ [v]) @ vs, (moves @ [Suc i]) @ map Suc (take (length vs) (filter ?blank rest)))"
            "length vs \<le> length (filter ?blank rest)"
        by (auto simp: new_alpha_def new_beta_def)
      have "explore state player depth alpha beta (i # rest) scores moves
              = Inr (scores @ (v # vs), moves @ map Suc (take (length (v # vs)) (filter ?blank (i # rest))))"
        using step go vs(1) True by simp
      moreover have "length (v # vs) \<le> length (filter ?blank (i # rest))"
        using True vs(2) by simp
      ultimately show ?thesis by blast
    qed
  qed
qed

section \<open>Soundness of the pruning\<close>

lemma less_bound_simps [simp]:
  "Fin x < Fin y \<longleftrightarrow> x < y"
  "NegInf < Fin y" "Fin x < PosInf" "NegInf < PosInf"
  "\<not> x' < NegInf" "\<not> PosInf < y'"
  by (cases x'; cases y'; auto simp: less_bound_def)+

lemma le_bound_simps [simp]:
  "\<not> Fin x \<le> NegInf" "\<not> PosInf \<le> Fin y" "\<not> PosInf \<le> NegInf"
  "x' \<le> NegInf \<longleftrightarrow> x' = NegInf" "PosInf \<le> y' \<longleftrightarrow> y' = PosInf"
  by (cases x'; cases y'; simp)+

lemma best_of_Cons:
  "best_of player (x # xs) =
     (if xs = [] then x
      else if player = MarkX then min x (best_of player xs) else max x (best_of player xs))"
  by (simp add: best_of_def)

lemma ab_ok_refl: "ab_ok a b m m"
  by (simp add: ab_ok_def)

lemma step_cut:
  assumes "a < b" "ab_ok a b v m" "new_beta player b v \<le> new_alpha player a v"
  shows "loop_ok player a b [v] (m # ms)"
  using assms
  by (cases a; cases b; cases player)
     (auto simp: loop_ok_def ab_ok_def best_of_Cons new_alpha_def new_beta_def
                 min_def max_def split: if_splits)

lemma step_go:
  assumes "a < b" "ab_ok a b v m" "\<not> new_beta player b v \<le> new_alpha player a v"
    "loop_ok player (new_alpha player a v) (new_beta player b v) vs ms"
  shows "loop_ok player a b (v # vs) (m # ms)"
  using assms
  by (cases a; cases b; cases player)
     (auto simp: loop_ok_def ab_ok_def best_of_Cons new_alpha_def new_beta_def
                 min_def max_def split: if_splits)

lemma legal_moves_9:
  "length (board state) = 9 \<Longrightarrow>
   legal_moves state = filter (\<lambda>i. board state ! i = None) [0..<9]"
  unfolding legal_moves_def by (rule filter_cong) auto

lemma minimax_full_leaf:
  "is_terminal state \<or> depth = 0 \<Longrightarrow>
   minimax_full state player depth =
     (if is_winner state MarkX then - 100 else if is_winner state MarkO then 100
      else if is_full state then 0 else evaluate state (opponent player))"
  by (auto simp: minimax_full.simps is_terminal_def)

lemma minimax_full_node:
  "length (board state) = 9 \<Longrightarrow> \<not> is_terminal state \<Longrightarrow> depth \<noteq> 0 \<Longrightarrow>
   minimax_full state player depth =
     best_of player (map (child_full state player depth)
                       (filter (\<lambda>i. board state ! i = None) [0..<9]))"
  by (subst minimax_full.simps)
     (simp add: is_terminal_def legal_moves_9 best_of_def child_full_def Let_def)

lemma minimax_pruning_leaf:
  "is_terminal state \<or> depth = 0 \<Longrightarrow>
   minimax_pruning state player depth alpha beta last_move =
     trace_leaf last_move
       (if is_winner state MarkX then - 100 else if is_winner state MarkO then 100
        else if is_full state then 0 else evaluate state (opponent player))"
  by (auto simp: minimax_pruning.simps is_terminal_def)

lemma minimax_pruning_node:
  "\<not> is_terminal state \<Longrightarrow> depth \<noteq> 0 \<Longrightarrow>
   minimax_pruning state player depth alpha beta last_move =
     (case explore state player depth alpha beta [0..<9] [] [] of
        Inl e \<Rightarrow> Inl e
      | Inr (scores, moves) \<Rightarrow> select_best player scores moves)"
  by (subst minimax_pruning.simps) (simp add: is_terminal_def)

lemma alpha_beta_sound:
  "length (board state) = 9 \<Longrightarrow> alpha < beta \<Longrightarrow>
   minimax_pruning state player depth alpha beta last_move = Inr (v, mv) \<Longrightarrow>
     ab_ok alpha beta v (minimax_full state player depth)"
  "length (board state) = 9 \<Longrightarrow> set rest \<subseteq> {..<9} \<Longrightarrow> alpha < beta \<Longrightarrow>
   explore state player depth alpha beta rest scores moves = Inr (scores @ vs, mvs) \<Longrightarrow>
     loop_ok player alpha beta vs
       (map (child_full state player depth) (filter (\<lambda>i. board state ! i = None) rest))"
proof (induction state player depth alpha beta last_move
         and state player depth alpha beta rest scores moves
       arbitrary: v mv and vs mvs
       rule: minimax_pruning_explore.induct)
  case (1 state player depth alpha beta last_move)
  show ?case
  proof (cases "is_terminal state \<or> depth = 0")
    case True
    from "1.prems"(3) have "v = minimax_full state player depth"
      unfolding minimax_pruning_leaf [OF True] minimax_full_leaf [OF True]
      by (cases last_move) simp_all
    then show ?thesis by (simp add: ab_ok_refl)
  next
    case False
    then have nt: "\<not> is_winner state MarkX" "\<not> is_winner state MarkO" "\<not> is_full state"
        "depth \<noteq> 0" "\<not> is_terminal state"
      by (simp_all add: is_terminal_def)
    let ?ms = "map (child_full state player depth) (filter (\<lambda>i. board state ! i = None) [0..<9])"
    have sub: "set [0..<9] \<subseteq> {..<9::nat}" by auto
    from "1.prems"(3) obtain vs mvs where
      ex: "explore state player depth alpha beta [0..<9] [] [] = Inr (vs, mvs)"
      and sel: "select_best player vs mvs = Inr (v, mv)"
      unfolding minimax_pruning_node [OF nt(5) nt(4)]
      by (auto split: sum.splits)
    from ex have "explore state player depth alpha beta [0..<9] [] [] = Inr ([] @ vs, mvs)"
      by simp
    from "1.IH" [OF nt(1-4) "1.prems"(1) sub "1.prems"(2) this]
    have lp: "loop_ok player alpha beta vs ?ms" .
    have "?ms \<noteq> []"
      using not_full_legal [OF "1.prems"(1) nt(3)] by simp
    with lp have vs: "vs \<noteq> []" and ok: "ab_ok alpha beta (best_of player vs) (best_of player ?ms)"
      by (simp_all add: loop_ok_def)
    from select_best_first [OF vs, of player mvs] sel have "v = best_of player vs"
      by auto
    with ok show ?thesis
      by (simp add: minimax_full_node [OF "1.prems"(1) nt(5) nt(4)])
  qed
next
  case (2 state player depth alpha beta scores moves)
  then show ?case by (simp add: loop_ok_def explore.simps)
next
  case (3 state player depth alpha beta i rest scores moves)
  let ?blank = "\<lambda>i. board state ! i = None"
  from "3.prems" have i: "i < length (board state)" and rest: "set rest \<subseteq> {..<9}"
    by simp_all
  show ?case
  proof (cases "board state ! i = None")
    case False
    have eq: "explore state player depth alpha beta (i # rest) scores moves
                = explore state player depth alpha beta rest scores moves"
      by (rule explore_taken [OF i False])
    have f: "filter ?blank (i # rest) = filter ?blank rest"
      using False by auto
    show ?thesis
      unfolding f
      by (rule "3.IH"(3) [OF _ False "3.prems"(1) rest "3.prems"(3)])
         (use i "3.prems"(4) eq in simp_all)
  next
    case True
    have len: "length (board (successor state i player)) = 9"
      using "3.prems"(1) by (simp add: successor_def)
    have "\<exists>v mv. minimax_pruning (successor state i player) (opponent player) (depth - 1)
                    alpha beta (Some i) = Inr (v, mv)"
      by (rule shape(1) [OF len]) simp
    then obtain v mv where
      child: "minimax_pruning (successor state i player) (opponent player) (depth - 1) alpha beta
                (Some i) = Inr (v, mv)"
      by blast
    have okv: "ab_ok alpha beta v (child_full state player depth i)"
      unfolding child_full_def
      using "3.IH"(1) [OF _ True _ "3.prems"(3) child [unfolded successor_def]] i "3.prems"(1)
      by (simp add: successor_def)
    note step = explore_blank [OF i True child, of rest scores moves]
    have f: "map (child_full state player depth) (filter ?blank (i # rest))
               = child_full state player depth i
                 # map (child_full state player depth) (filter ?blank rest)"
      using True by simp
    show ?thesis
    proof (cases "new_beta player beta v \<le> new_alpha player alpha v")
      case cut: True
      with step "3.prems"(4) have "vs = [v]" by simp
      then show ?thesis
        unfolding f using step_cut [OF "3.prems"(3) okv cut] by simp
    next
      case go: False
      from shape(2) [OF "3.prems"(1) rest, of player depth "new_alpha player alpha v"
                       "new_beta player beta v" "scores @ [v]" "moves @ [Suc i]"]
      obtain vs' mvs' where
        ex: "explore state player depth (new_alpha player alpha v) (new_beta player beta v) rest
               (scores @ [v]) (moves @ [Suc i]) = Inr ((scores @ [v]) @ vs', mvs')"
        by blast
      with step go "3.prems"(4) have vs: "vs = v # vs'" by simp
      from go have lt: "new_alpha player alpha v < new_beta player beta v" by simp
      have "loop_ok player (if player = MarkX then alpha else max alpha (Fin v))
              (if player = MarkX then min beta (Fin v) else beta) vs'
              (map (child_full state player depth) (filter ?blank rest))"
        by (rule "3.IH"(2) [OF _ True child [unfolded successor_def] refl refl refl refl refl _
                           "3.prems"(1) rest])
           (use i go lt ex in \<open>simp_all add: new_alpha_def new_beta_def\<close>)
      then have "loop_ok player (new_alpha player alpha v) (new_beta player beta v) vs'
              (map (child_full state player depth) (filter ?blank rest))"
        by (simp add: new_alpha_def new_beta_def)
      from step_go [OF "3.prems"(3) okv go this] show ?thesis
        unfolding f vs .
    qed
  qed
qed

lemma ab_ok_full_window: "ab_ok NegInf PosInf v m \<Longrightarrow> v = m"
  by (simp add: ab_ok_def)

text \<open>
  The pruning itself is sound. Called with the full window (\<open>alpha\<close> = -infinity,
  \<open>beta\<close> = +infinity) on a board of nine cells, every call of \<^verbatim>\<open>minimax_pruning\<close> that
  returns a score returns the score of the unpruned full-width search \<open>minimax_full\<close>,
  and the only calls that return none are those in which the trace line of a leaf cannot
  be formatted (\<^verbatim>\<open>last_move = None\<close> on a terminal board or at depth 0).
\<close>

lemma pruned_score_when_returned:
  assumes "length (board state) = 9"
  shows "case minimax_pruning state player depth NegInf PosInf last_move of
           Inr (score, move) \<Rightarrow> score = minimax_full state player depth
         | Inl e \<Rightarrow> e = TypeError \<and> last_move = None \<and> (is_terminal state \<or> depth = 0)"
proof (cases "last_move \<noteq> None \<or> (\<not> is_terminal state \<and> depth \<noteq> 0)")
  case True
  from shape(1) [OF assms True] obtain v mv where
    r: "minimax_pruning state player depth NegInf PosInf last_move = Inr (v, mv)"
    by blast
  have "ab_ok NegInf PosInf v (minimax_full state player depth)"
    by (rule alpha_beta_sound(1) [OF assms _ r]) simp
  with r show ?thesis by (simp add: ab_ok_full_window)
next
  case False
  then have "last_move = None" "is_terminal state \<or> depth = 0" by auto
  then show ?thesis
    by (simp add: minimax_pruning_leaf)
qed

lemma pruned_score_when_returned_example:
  "length (board board_a) = 9
   \<and> minimax_pruning board_a MarkO 2 NegInf PosInf None = Inr (0, Some 9)
   \<and> minimax_full board_a MarkO 2 = 0"
proof -
  have h: "length (board board_a) = 9"
    by (simp add: board_a_def)
  have r: "minimax_pruning board_a MarkO 2 NegInf PosInf None = Inr (0, Some 9)"
    by code_simp
  from pruned_score_when_returned [OF h, where player = MarkO and depth = 2 and last_move = None] r
  have "minimax_full board_a MarkO 2 = 0"
    by simp
  with h r show ?thesis by simp
qed

text \<open>
  Claim C1. At the root, with \<open>alpha\<close> = -infinity and \<open>beta\<close> = +infinity, the score
  returned by \<^verbatim>\<open>minimax_pruning\<close> is to equal the score of the unpruned full-width search
  for every board, mover and depth. It does whenever a score is returned
  (\<open>pruned_score_when_returned\<close>), but the root call, which leaves \<^verbatim>\<open>last_move\<close> at its
  default \<^verbatim>\<open>None\<close>, returns no score on a terminal board or at depth 0: on the empty
  board at depth 0 the unpruned score is 0 and the call raises \<^verbatim>\<open>TypeError\<close> in the
  trace line.
\<close>

theorem root_call_raises_where_unpruned_scores:
  "minimax_full board_empty MarkO 0 = 0
   \<and> minimax_pruning board_empty MarkO 0 NegInf PosInf None = Inl TypeError"
proof -
  have nt: "\<not> is_winner board_empty MarkX" "\<not> is_winner board_empty MarkO"
    "\<not> is_full board_empty"
    by (simp_all add: board_empty_def is_winner_def is_full_def numeral_eq_Suc)
  have ev: "evaluate board_empty (opponent MarkO) = 0"
    by (simp add: board_empty_def evaluate_def opponent_def numeral_eq_Suc)
  from nt ev have "minimax_full board_empty MarkO 0 = 0"
    by (simp add: minimax_full.simps)
  moreover from nt have "minimax_pruning board_empty MarkO 0 NegInf PosInf None = Inl TypeError"
    by (simp add: minimax_pruning.simps)
  ultimately show ?thesis by simp
qed

section \<open>Leaves and the trace line\<close>

lemma leaf_with_last_move:
  "is_terminal state \<or> depth = 0 \<Longrightarrow>
   minimax_pruning state player depth alpha beta (Some m) = Inr (leaf_score state player, None)"
  by (simp add: minimax_pruning_leaf leaf_score_def)

lemma leaf_without_last_move:
  "is_terminal state \<or> depth = 0 \<Longrightarrow>
   minimax_pruning state player depth alpha beta None = Inl TypeError"
  by (simp add: minimax_pruning_leaf)

text \<open>
  Claim C2. On a board where X has three in a row the search is to return the score
  -100 with the move \<^verbatim>\<open>None\<close> (and +100 for O, 0 for a full board without winner).
  A recursive call does (\<open>leaf_with_last_move\<close>); the top-level call, which leaves
  \<^verbatim>\<open>last_move\<close> at its default \<^verbatim>\<open>None\<close>, raises \<^verbatim>\<open>TypeError\<close> in the trace line instead,
  as here on the board with X in cells 0, 1, 2.
\<close>

theorem x_win_root_call_raises:
  "is_winner board_x_won MarkX
   \<and> minimax_pruning board_x_won MarkO 0 NegInf PosInf None = Inl TypeError"
  by (simp add: board_x_won_def is_winner_def minimax_pruning.simps)

text \<open>
  Claim C3. At depth 0 on a non-terminal board the search is to return the static
  evaluation of the mover's opponent with the move \<^verbatim>\<open>None\<close>. A recursive call does
  (\<open>leaf_with_last_move\<close>); the top-level call with the default \<^verbatim>\<open>last_move = None\<close>
  raises \<^verbatim>\<open>TypeError\<close> in the trace line instead, as here on the empty board.
\<close>

theorem depth_zero_root_call_raises:
  "\<not> is_terminal board_empty
   \<and> minimax_pruning board_empty MarkO 0 NegInf PosInf None = Inl TypeError"
  by (simp add: board_empty_def is_terminal_def is_winner_def is_full_def minimax_pruning.simps
      numeral_eq_Suc)

text \<open>
  Claim C9. On a terminal board a call with \<^verbatim>\<open>last_move = None\<close> (the top-level default)
  raises \<^verbatim>\<open>TypeError\<close>; a call whose \<^verbatim>\<open>last_move\<close> is a cell index, as every recursive
  call's is (\<open>explore_blank\<close>), returns the terminal score with the move \<^verbatim>\<open>None\<close>.
\<close>

theorem terminal_root_call_raises:
  assumes "is_terminal state"
  shows "minimax_pruning state player depth alpha beta None = Inl TypeError
         \<and> minimax_pruning state player depth alpha beta (Some i)
             = Inr (if is_winner state MarkX then - 100
                    else if is_winner state MarkO then 100 else 0, None)"
  using assms
  by (auto simp: minimax_pruning_leaf is_terminal_def)

theorem terminal_root_call_raises_witness:
  "is_terminal board_x_won
   \<and> minimax_pruning board_x_won MarkO 3 NegInf PosInf None = Inl TypeError
   \<and> minimax_pruning board_x_won MarkO 3 NegInf PosInf (Some 2) = Inr (- 100, None)"
proof -
  have w: "is_winner board_x_won MarkX"
    by (simp add: board_x_won_def is_winner_def)
  then have t: "is_terminal board_x_won"
    by (simp add: is_terminal_def)
  from terminal_root_call_raises [OF t, of MarkO 3 NegInf PosInf 2] w t
  show ?thesis by simp
qed

text \<open>
  Claim C10. In the recursive phase (non-terminal board, depth not 0) the board has a
  blank cell, the loop returns a non-empty list of scores with as many moves, and the
  selection applied to them succeeds: the \<^verbatim>\<open>ValueError\<close> of \<^verbatim>\<open>min\<close>/\<^verbatim>\<open>max\<close> on an
  empty list cannot occur.
\<close>

theorem recursive_phase_scores_nonempty:
  assumes "length (board state) = 9" "\<not> is_terminal state" "depth \<noteq> 0"
  shows "(\<exists>i<9. board state ! i = None)
         \<and> (\<exists>scores moves v m.
               explore state player depth alpha beta [0..<9] [] [] = Inr (scores, moves)
               \<and> scores \<noteq> [] \<and> length moves = length scores
               \<and> minimax_pruning state player depth alpha beta last_move
                    = select_best player scores moves
               \<and> select_best player scores moves = Inr (v, Some m))"
proof -
  let ?legal = "filter (\<lambda>i. board state ! i = None) [0..<9]"
  from assms(2) have nf: "\<not> is_full state" by (simp add: is_terminal_def)
  from not_full_legal [OF assms(1) nf] obtain i where "i \<in> set ?legal"
    by (cases ?legal) auto
  then have blank: "\<exists>i<9. board state ! i = None" by auto
  have sub: "set [0..<9] \<subseteq> {..<9::nat}" by auto
  from shape(2) [OF assms(1) sub, of player depth alpha beta "[]" "[]"]
    not_full_legal [OF assms(1) nf]
  obtain vs where
    ex: "explore state player depth alpha beta [0..<9] [] []
           = Inr (vs, map Suc (take (length vs) ?legal))"
    and len: "length vs \<le> length ?legal" and ne: "vs \<noteq> []"
    by auto
  let ?mvs = "map Suc (take (length vs) ?legal)"
  from len have lm: "length ?mvs = length vs" by simp
  from select_best_first [OF ne, of player ?mvs] obtain k where
    sel: "select_best player vs ?mvs = Inr (best_of player vs, Some (?mvs ! k))"
    by blast
  have mm: "minimax_pruning state player depth alpha beta last_move = select_best player vs ?mvs"
    by (simp add: minimax_pruning_node [OF assms(2,3)] ex)
  from blank ex ne lm mm sel show ?thesis by blast
qed

theorem recursive_phase_scores_nonempty_witness:
  "length (board board_last) = 9 \<and> \<not> is_terminal board_last \<and> (1::int) \<noteq> 0
   \<and> explore board_last MarkX 1 NegInf PosInf [0..<9] [] [] = Inr ([0], [9])
   \<and> minimax_pruning board_last MarkX 1 NegInf PosInf None = Inr (0, Some 9)"
proof -
  have h: "length (board board_last) = 9" "\<not> is_terminal board_last" "(1::int) \<noteq> 0"
    by (simp_all add: board_last_def is_terminal_def is_winner_def is_full_def)
  have e: "explore board_last MarkX 1 NegInf PosInf [0..<9] [] [] = Inr ([0], [9])"
    by code_simp
  from recursive_phase_scores_nonempty [OF h, of MarkX NegInf PosInf None] e
  have "minimax_pruning board_last MarkX 1 NegInf PosInf None = Inr (0, Some 9)"
    by (auto simp: select_best_def)
  with h e show ?thesis by simp
qed

section \<open>The moves and scores the search returns\<close>

lemma legal_nth:
  assumes "j < length (filter (\<lambda>i. board state ! i = None) [0..<9])"
  shows "filter (\<lambda>i. board state ! i = None) [0..<9] ! j < 9"
    and "board state ! (filter (\<lambda>i. board state ! i = None) [0..<9] ! j) = None"
proof -
  from nth_mem [OF assms]
  have "filter (\<lambda>i. board state ! i = None) [0..<9] ! j
          \<in> set (filter (\<lambda>i. board state ! i = None) [0..<9])" .
  then show "filter (\<lambda>i. board state ! i = None) [0..<9] ! j < 9"
    and "board state ! (filter (\<lambda>i. board state ! i = None) [0..<9] ! j) = None"
    by simp_all
qed

lemma explore_scores:
  "length (board state) = 9 \<Longrightarrow> set rest \<subseteq> {..<9} \<Longrightarrow>
   explore state player depth alpha beta rest scores moves = Inr (scores @ vs, mvs) \<Longrightarrow>
   j < length vs \<Longrightarrow>
   \<exists>a b mv. minimax_pruning
               (successor state (filter (\<lambda>i. board state ! i = None) rest ! j) player)
               (opponent player) (depth - 1) a b
               (Some (filter (\<lambda>i. board state ! i = None) rest ! j)) = Inr (vs ! j, mv)"
proof (induction rest arbitrary: alpha beta scores moves vs mvs j)
  case Nil
  then show ?case by (simp add: explore.simps)
next
  case (Cons i rest)
  let ?blank = "\<lambda>i. board state ! i = None"
  from Cons.prems have i: "i < length (board state)" and rest: "set rest \<subseteq> {..<9}"
    by simp_all
  show ?case
  proof (cases "board state ! i = None")
    case False
    have f: "filter ?blank (i # rest) = filter ?blank rest"
      using False by auto
    from Cons.prems(3) have "explore state player depth alpha beta rest scores moves
                               = Inr (scores @ vs, mvs)"
      by (simp add: explore_taken [OF i False])
    from Cons.IH [OF Cons.prems(1) rest this Cons.prems(4)] show ?thesis
      unfolding f .
  next
    case True
    have len: "length (board (successor state i player)) = 9"
      using Cons.prems(1) by (simp add: successor_def)
    have "\<exists>v mv. minimax_pruning (successor state i player) (opponent player) (depth - 1)
                    alpha beta (Some i) = Inr (v, mv)"
      by (rule shape(1) [OF len]) simp
    then obtain v mv where
      child: "minimax_pruning (successor state i player) (opponent player) (depth - 1) alpha beta
                (Some i) = Inr (v, mv)"
      by blast
    note step = explore_blank [OF i True child, of rest scores moves]
    have f: "filter ?blank (i # rest) = i # filter ?blank rest"
      using True by simp
    show ?thesis
    proof (cases "new_beta player beta v \<le> new_alpha player alpha v")
      case cut: True
      with step Cons.prems(3) have "vs = [v]" by simp
      with Cons.prems(4) child show ?thesis
        unfolding f by auto
    next
      case go: False
      from shape(2) [OF Cons.prems(1) rest, of player depth "new_alpha player alpha v"
                       "new_beta player beta v" "scores @ [v]" "moves @ [Suc i]"]
      obtain vs' mvs' where
        ex: "explore state player depth (new_alpha player alpha v) (new_beta player beta v) rest
               (scores @ [v]) (moves @ [Suc i]) = Inr ((scores @ [v]) @ vs', mvs')"
        by blast
      with step go Cons.prems(3) have vs: "vs = v # vs'" by simp
      show ?thesis
      proof (cases j)
        case 0
        with child vs show ?thesis unfolding f by auto
      next
        case (Suc j')
        with Cons.prems(4) vs have "j' < length vs'" by simp
        from Cons.IH [OF Cons.prems(1) rest ex this] Suc vs show ?thesis
          unfolding f by simp
      qed
    qed
  qed
qed

lemma sum_cond_bounds:
  "0 \<le> w \<Longrightarrow>
   0 \<le> sum_list (map (\<lambda>pos. if P pos then w else 0) xs)
   \<and> sum_list (map (\<lambda>pos. if P pos then w else 0) xs) \<le> w * int (length xs)"
  for w :: int
  by (induction xs) (auto simp: algebra_simps)

lemma evaluate_bounds: "- 100 \<le> evaluate state player \<and> evaluate state player \<le> 100"
proof -
  let ?P = "\<lambda>pos. board state ! pos = Some player"
  let ?c = "sum_list (map (\<lambda>pos. if ?P pos then 3 else 0) [0, 2, 6, 8]) :: int"
  let ?s = "sum_list (map (\<lambda>pos. if ?P pos then 2 else 0) [1, 3, 5, 7]) :: int"
  let ?m = "(if ?P 4 then 4 else 0) :: int"
  have e: "evaluate state player = (if player = MarkX then - 1 else 1) * (0 + ?c + ?s + ?m)"
    unfolding evaluate_def Let_def fold_cond_add
    unfolding cond_add ..
  have c: "0 \<le> ?c \<and> ?c \<le> 3 * int (length [0::nat, 2, 6, 8])"
    by (rule sum_cond_bounds) simp
  have s: "0 \<le> ?s \<and> ?s \<le> 2 * int (length [1::nat, 3, 5, 7])"
    by (rule sum_cond_bounds) simp
  have m: "0 \<le> ?m \<and> ?m \<le> 4" by simp
  from c s m have "0 \<le> 0 + ?c + ?s + ?m \<and> 0 + ?c + ?s + ?m \<le> 24"
    by simp
  then show ?thesis
    unfolding e by (cases "player = MarkX") auto
qed

lemma score_bounds:
  "length (board state) = 9 \<Longrightarrow>
   minimax_pruning state player depth alpha beta last_move = Inr (v, mv) \<Longrightarrow>
   - 100 \<le> v \<and> v \<le> 100"
proof (induction "empties state" arbitrary: state player depth alpha beta last_move v mv
       rule: less_induct)
  case less
  let ?legal = "filter (\<lambda>i. board state ! i = None) [0..<9]"
  show ?case
  proof (cases "is_terminal state \<or> depth = 0")
    case True
    from less.prems(2) have "v = leaf_score state player"
      unfolding minimax_pruning_leaf [OF True] leaf_score_def
      by (cases last_move) simp_all
    then show ?thesis
      using evaluate_bounds [of state "opponent player"] by (simp add: leaf_score_def)
  next
    case False
    then have nt: "\<not> is_terminal state" "depth \<noteq> 0" by simp_all
    have sub: "set [0..<9] \<subseteq> {..<9::nat}" by auto
    from shape(2) [OF less.prems(1) sub, of player depth alpha beta "[]" "[]"]
    obtain vs where
      ex: "explore state player depth alpha beta [0..<9] [] []
             = Inr ([] @ vs, map Suc (take (length vs) ?legal))"
      and len: "length vs \<le> length ?legal"
      and ne: "?legal \<noteq> [] \<longrightarrow> vs \<noteq> []"
      by auto
    from nt(1) have "\<not> is_full state" by (simp add: is_terminal_def)
    from not_full_legal [OF less.prems(1) this] ne have vs: "vs \<noteq> []" by simp
    from select_best_first [OF vs, of player "map Suc (take (length vs) ?legal)"]
      less.prems(2) ex
    obtain k where k: "k < length vs" "vs ! k = v"
      by (auto simp: minimax_pruning_node [OF nt])
    from explore_scores [OF less.prems(1) sub ex k(1)] k(2) obtain a b mv' where
      child: "minimax_pruning (successor state (?legal ! k) player) (opponent player) (depth - 1)
                a b (Some (?legal ! k)) = Inr (v, mv')"
      by auto
    from k(1) len have kl: "k < length ?legal" by simp
    from legal_nth [OF kl] less.prems(1)
    have "empties (successor state (?legal ! k) player) < empties state"
      unfolding successor_def by (intro empties_place) simp_all
    moreover have "length (board (successor state (?legal ! k) player)) = 9"
      using less.prems(1) by (simp add: successor_def)
    ultimately show ?thesis
      using less.hyps child by blast
  qed
qed

lemma moves_nth:
  assumes "j < n" "n \<le> length xs"
  shows "map Suc (take n xs) ! j = Suc (xs ! j)"
  using assms by simp

lemma legal_sorted:
  "sorted_wrt (<) (map Suc (take n (filter (\<lambda>i. board state ! i = None) [0..<9])))"
  by (simp add: sorted_wrt_map sorted_wrt_take sorted_wrt_filter)

text \<open>
  Claim C7. In the recursive case the loop returns the scores of the children it explored
  (each the result of the recursive call on the successor at that move) with their moves,
  and the search returns the score at a position \<open>k\<close> of that list: the minimum of the
  list for the mover X, the maximum for O. No earlier position holds that score, and every
  explored child with the same score has a move at least as large: among ties the first
  child in ascending cell order is returned.
\<close>

theorem first_extremum_selected:
  assumes "length (board state) = 9" "\<not> is_terminal state" "depth \<noteq> 0"
  shows "\<exists>scores moves k.
           explore state player depth alpha beta [0..<9] [] [] = Inr (scores, moves)
           \<and> length moves = length scores \<and> k < length scores
           \<and> minimax_pruning state player depth alpha beta last_move
                = Inr (scores ! k, Some (moves ! k))
           \<and> scores ! k = (if player = MarkX then Min (set scores) else Max (set scores))
           \<and> (\<forall>j<k. scores ! j \<noteq> scores ! k)
           \<and> (\<forall>j<length scores. scores ! j = scores ! k \<longrightarrow> moves ! k \<le> moves ! j)
           \<and> (\<forall>j<length scores. \<exists>a b mv.
                  minimax_pruning (successor state (moves ! j - 1) player) (opponent player)
                    (depth - 1) a b (Some (moves ! j - 1)) = Inr (scores ! j, mv))"
proof -
  let ?legal = "filter (\<lambda>i. board state ! i = None) [0..<9]"
  have sub: "set [0..<9] \<subseteq> {..<9::nat}" by auto
  from assms(2) have "\<not> is_full state" by (simp add: is_terminal_def)
  note legal = not_full_legal [OF assms(1) this]
  from shape(2) [OF assms(1) sub, of player depth alpha beta "[]" "[]"] legal
  obtain vs where
    ex: "explore state player depth alpha beta [0..<9] [] []
           = Inr ([] @ vs, map Suc (take (length vs) ?legal))"
    and len: "length vs \<le> length ?legal" and ne: "vs \<noteq> []"
    by auto
  let ?mvs = "map Suc (take (length vs) ?legal)"
  from len have lm: "length ?mvs = length vs" by simp
  from select_best_first [OF ne, of player ?mvs] obtain k where
    k: "k < length vs" "vs ! k = best_of player vs" "\<forall>j<k. vs ! j \<noteq> best_of player vs"
    and sel: "select_best player vs ?mvs = Inr (best_of player vs, Some (?mvs ! k))"
    by blast
  have mm: "minimax_pruning state player depth alpha beta last_move
              = Inr (vs ! k, Some (?mvs ! k))"
    using ex sel k(2) by (simp add: minimax_pruning_node [OF assms(2,3)])
  have best: "vs ! k = (if player = MarkX then Min (set vs) else Max (set vs))"
    using k(2) by (simp add: best_of_def)
  have first: "\<forall>j<k. vs ! j \<noteq> vs ! k"
    using k(2,3) by simp
  have lowest: "\<forall>j<length vs. vs ! j = vs ! k \<longrightarrow> ?mvs ! k \<le> ?mvs ! j"
  proof (intro allI impI)
    fix j assume j: "j < length vs" "vs ! j = vs ! k"
    with first have "\<not> j < k" by blast
    then have "k = j \<or> k < j" by arith
    then show "?mvs ! k \<le> ?mvs ! j"
    proof
      assume "k = j" then show ?thesis by simp
    next
      assume "k < j"
      moreover from j(1) have "j < length ?mvs" by (simp only: lm)
      ultimately have "?mvs ! k < ?mvs ! j"
        by (rule sorted_wrt_nth_less [OF legal_sorted])
      then show ?thesis by (rule less_imp_le)
    qed
  qed
  have children: "\<forall>j<length vs. \<exists>a b mv.
      minimax_pruning (successor state (?mvs ! j - 1) player) (opponent player)
        (depth - 1) a b (Some (?mvs ! j - 1)) = Inr (vs ! j, mv)"
  proof (intro allI impI)
    fix j assume j: "j < length vs"
    from moves_nth [OF j len] have "?mvs ! j - 1 = ?legal ! j" by simp
    with explore_scores [OF assms(1) sub ex j]
    show "\<exists>a b mv. minimax_pruning (successor state (?mvs ! j - 1) player) (opponent player)
        (depth - 1) a b (Some (?mvs ! j - 1)) = Inr (vs ! j, mv)"
      by simp
  qed
  from ex lm k(1) mm best first lowest children show ?thesis
    by (intro exI [of _ vs] exI [of _ ?mvs] exI [of _ k]) simp
qed

theorem first_extremum_selected_witness:
  "length (board board_a) = 9 \<and> \<not> is_terminal board_a \<and> (1::int) \<noteq> 0
   \<and> explore board_a MarkO 1 NegInf PosInf [0..<9] [] [] = Inr ([11, 11], [7, 9])
   \<and> minimax_pruning board_a MarkO 1 NegInf PosInf None = Inr (11, Some 7)"
proof -
  have h: "length (board board_a) = 9" "\<not> is_terminal board_a" "(1::int) \<noteq> 0"
    by (simp_all add: board_a_def is_terminal_def is_winner_def is_full_def)
  have e: "explore board_a MarkO 1 NegInf PosInf [0..<9] [] [] = Inr ([11, 11], [7, 9])"
    by code_simp
  from first_extremum_selected [OF h, of MarkO NegInf PosInf None] obtain scores moves k where
    r: "explore board_a MarkO 1 NegInf PosInf [0..<9] [] [] = Inr (scores, moves)"
       "k < length scores"
       "minimax_pruning board_a MarkO 1 NegInf PosInf None = Inr (scores ! k, Some (moves ! k))"
       "\<forall>j<k. scores ! j \<noteq> scores ! k"
    by blast
  from r(1) e have sm: "scores = [11, 11]" "moves = [7, 9]" by simp_all
  with r(2,4) have "k = 0" by (auto simp: less_Suc_eq numeral_2_eq_2)
  with r(3) sm have "minimax_pruning board_a MarkO 1 NegInf PosInf None = Inr (11, Some 7)"
    by simp
  with h e show ?thesis by simp
qed

text \<open>
  Claim C5, amended. The move returned in the recursive case (non-terminal board of nine
  cells, depth not 0) is the 1-based number \<open>m\<close> of a blank cell: \<open>1 \<le> m \<le> 9\<close> and cell
  \<open>m - 1\<close> is blank. (The loop appends \<^verbatim>\<open>i + 1\<close>, which \<^verbatim>\<open>Game.make_move\<close> turns back
  into the index \<^verbatim>\<open>move - 1\<close>.) A call on a terminal board or at depth 0 whose
  \<^verbatim>\<open>last_move\<close> is a cell index returns the move \<^verbatim>\<open>None\<close>.
\<close>

theorem returned_move_is_cell_number:
  assumes "length (board state) = 9"
  shows "if is_terminal state \<or> depth = 0
         then \<exists>score. minimax_pruning state player depth alpha beta (Some l) = Inr (score, None)
         else \<exists>score m. minimax_pruning state player depth alpha beta last_move
                           = Inr (score, Some m)
                \<and> 1 \<le> m \<and> m \<le> 9 \<and> board state ! (m - 1) = None"
proof (cases "is_terminal state \<or> depth = 0")
  case True
  then show ?thesis
    by (simp add: leaf_with_last_move)
next
  case False
  then have nt: "\<not> is_terminal state" "depth \<noteq> 0" by simp_all
  let ?legal = "filter (\<lambda>i. board state ! i = None) [0..<9]"
  have sub: "set [0..<9] \<subseteq> {..<9::nat}" by auto
  from nt(1) have "\<not> is_full state" by (simp add: is_terminal_def)
  note legal = not_full_legal [OF assms this]
  from shape(2) [OF assms sub, of player depth alpha beta "[]" "[]"] legal
  obtain vs where
    ex: "explore state player depth alpha beta [0..<9] [] []
           = Inr (vs, map Suc (take (length vs) ?legal))"
    and len: "length vs \<le> length ?legal" and ne: "vs \<noteq> []"
    by auto
  let ?mvs = "map Suc (take (length vs) ?legal)"
  from select_best_first [OF ne, of player ?mvs] obtain k where
    k: "k < length vs"
    and sel: "select_best player vs ?mvs = Inr (best_of player vs, Some (?mvs ! k))"
    by blast
  from k len have kl: "k < length ?legal" by simp
  have m: "?mvs ! k = Suc (?legal ! k)"
    by (rule moves_nth [OF k len])
  have "minimax_pruning state player depth alpha beta last_move
          = Inr (best_of player vs, Some (Suc (?legal ! k)))"
    using ex sel m by (simp add: minimax_pruning_node [OF nt])
  moreover have "1 \<le> Suc (?legal ! k)" "Suc (?legal ! k) \<le> 9"
    "board state ! (Suc (?legal ! k) - 1) = None"
    using legal_nth [OF kl] by simp_all
  ultimately show ?thesis
    using False by (simp only: if_False) blast
qed

theorem returned_move_is_cell_number_witness:
  "length (board board_x_won) = 9 \<and> is_terminal board_x_won
   \<and> length (board board_last) = 9 \<and> \<not> (is_terminal board_last \<or> (1::int) = 0)
   \<and> (\<exists>score. minimax_pruning board_x_won MarkO 3 NegInf PosInf (Some 2) = Inr (score, None))
   \<and> (\<exists>score m. minimax_pruning board_last MarkX 1 NegInf PosInf None = Inr (score, Some m)
         \<and> 1 \<le> m \<and> m \<le> 9 \<and> board board_last ! (m - 1) = None)"
proof -
  have a: "length (board board_x_won) = 9" "is_terminal board_x_won"
    by (simp_all add: board_x_won_def is_terminal_def is_winner_def)
  have b: "length (board board_last) = 9" "\<not> (is_terminal board_last \<or> (1::int) = 0)"
    by (simp_all add: board_last_def is_terminal_def is_winner_def is_full_def)
  from returned_move_is_cell_number [OF a(1), of 3 MarkO NegInf PosInf 2] a(2)
  have c: "\<exists>score. minimax_pruning board_x_won MarkO 3 NegInf PosInf (Some 2) = Inr (score, None)"
    by simp
  from returned_move_is_cell_number [OF b(1), of 1 MarkX NegInf PosInf _ None] b(2)
  have d: "\<exists>score m. minimax_pruning board_last MarkX 1 NegInf PosInf None = Inr (score, Some m)
         \<and> 1 \<le> m \<and> m \<le> 9 \<and> board board_last ! (m - 1) = None"
    by simp
  from a b c d show ?thesis by blast
qed

text \<open>
  Claim C5 as stated fails: with cell 8 the only blank cell, the move returned is 9,
  which is not an index of the board.
\<close>

theorem returned_move_out_of_index_range:
  "minimax_pruning board_last MarkX 1 NegInf PosInf None = Inr (0, Some 9)
   \<and> \<not> 9 < length (board board_last)"
  by (simp add: board_last_def minimax_pruning.simps explore.simps is_winner_def is_full_def
      upt_9 evaluate_def opponent_def select_best_def Let_def)

lemma max_NegInf [simp]: "max NegInf x = x"
  by (simp add: max_def)

text \<open>
  Claim C6, amended. On the board with O in cells 0 and 1 and X in cells 3 and 4, the
  mover O and any depth of at least 1, the search with the full window returns the score
  100 and the move 3, the 1-based number of cell index 2.
\<close>

theorem immediate_win_taken:
  assumes "1 \<le> depth"
  shows "minimax_pruning board_b MarkO depth NegInf PosInf None = Inr (100, Some 3)"
proof -
  from assms have d0: "depth \<noteq> 0" by simp
  have len: "length (board board_b) = 9"
    by (simp add: board_b_def)
  have nt: "\<not> is_terminal board_b"
    by (simp add: board_b_def is_terminal_def is_winner_def is_full_def)
  have skip: "explore board_b MarkO depth NegInf PosInf [0..<9] [] []
                = explore board_b MarkO depth NegInf PosInf [2, 3, 4, 5, 6, 7, 8] [] []"
    by (simp add: upt_9 explore_taken board_b_def)
  have "is_terminal (successor board_b 2 MarkO)"
    and "leaf_score (successor board_b 2 MarkO) MarkX = 100"
    by (simp_all add: successor_def board_b_def is_terminal_def is_winner_def leaf_score_def)
  then have child: "minimax_pruning (successor board_b 2 MarkO) (opponent MarkO) (depth - 1)
                      NegInf PosInf (Some 2) = Inr (100, None)"
    by (simp add: leaf_with_last_move opponent_def)
  have i2: "2 < length (board board_b)" "board board_b ! 2 = None"
    by (simp_all add: board_b_def)
  have win: "explore board_b MarkO depth NegInf PosInf [2, 3, 4, 5, 6, 7, 8] [] []
               = explore board_b MarkO depth (Fin 100) PosInf [3, 4, 5, 6, 7, 8] [100] [3]"
    using explore_blank [OF i2 child, of "[3, 4, 5, 6, 7, 8]" "[]" "[]"]
    by (simp add: new_alpha_def new_beta_def)
  have sub: "set [3, 4, 5, 6, 7, 8] \<subseteq> {..<9::nat}" by simp
  from shape(2) [OF len sub, of MarkO depth "Fin 100" PosInf "[100]" "[3]"]
  obtain vs mvs where
    ex: "explore board_b MarkO depth (Fin 100) PosInf [3, 4, 5, 6, 7, 8] [100] [3]
           = Inr ([100] @ vs, [3] @ mvs)"
    by blast
  have le: "x \<le> 100" if "x \<in> set vs" for x
  proof -
    from that obtain j where j: "j < length vs" "vs ! j = x"
      by (auto simp: in_set_conv_nth)
    from explore_scores [OF len sub ex j(1)] obtain a b mv where
      s: "minimax_pruning
            (successor board_b (filter (\<lambda>i. board board_b ! i = None) [3, 4, 5, 6, 7, 8] ! j) MarkO)
            (opponent MarkO) (depth - 1) a b
            (Some (filter (\<lambda>i. board board_b ! i = None) [3, 4, 5, 6, 7, 8] ! j))
          = Inr (vs ! j, mv)"
      by blast
    have "length (board (successor board_b i MarkO)) = 9" for i
      using len by (simp add: successor_def)
    from score_bounds [OF this s] j(2) show ?thesis by simp
  qed
  then have best: "best_of MarkO (100 # vs) = 100"
    by (auto simp: best_of_def intro!: Max_eqI)
  from select_best_first [of "100 # vs" MarkO "3 # mvs"] best obtain k where
    k: "\<forall>j<k. (100 # vs) ! j \<noteq> 100"
       "select_best MarkO (100 # vs) (3 # mvs) = Inr (100, Some ((3 # mvs) ! k))"
    by auto
  from k(1) have "k = 0" by (cases k) auto
  with k(2) have "select_best MarkO (100 # vs) (3 # mvs) = Inr (100, Some 3)"
    by simp
  with skip win ex show ?thesis
    by (simp add: minimax_pruning_node [OF nt d0])
qed

theorem immediate_win_taken_witness:
  "(1::int) \<le> 2 \<and> minimax_pruning board_b MarkO 2 NegInf PosInf None = Inr (100, Some 3)"
  using immediate_win_taken [of 2] by simp

text \<open>Claim C6 as stated fails: the move returned is not the index 2.\<close>

theorem immediate_win_move_is_not_index:
  "minimax_pruning board_b MarkO 1 NegInf PosInf None \<noteq> Inr (100, Some 2)"
  by (simp add: board_b_def minimax_pruning.simps explore.simps is_winner_def is_full_def
      upt_9 evaluate_def opponent_def select_best_def Let_def)

section \<open>The board of the caller\<close>

lemma extends_refl: "extends st st"
  by (simp add: extends_def)

lemma extends_trans:
  assumes "extends st st'" "extends st' st''"
  shows "extends st st''"
proof -
  from assms obtain ws ws' where
    w: "writes st' = writes st @ ws" "writes st'' = writes st' @ ws'"
    by (auto simp: extends_def prefix_def)
  from assms have l: "length (list_objs st) \<le> length (list_objs st')"
    by (auto simp: extends_def dest: prefix_length_le)
  from assms w have "list_all (\<lambda>l. length (list_objs st) \<le> l) ws"
    "list_all (\<lambda>l. length (list_objs st') \<le> l) ws'"
    by (simp_all add: extends_def)
  with l have "list_all (\<lambda>l. length (list_objs st) \<le> l) (ws @ ws')"
    by (auto simp: list_all_iff)
  with assms w show ?thesis
    by (auto simp: extends_def)
qed

lemma prefix_nth: "prefix xs ys \<Longrightarrow> a < length xs \<Longrightarrow> ys ! a = xs ! a"
  by (auto simp: prefix_def nth_append)

lemma extends_valid: "extends st st' \<Longrightarrow> valid st state \<Longrightarrow> valid st' state"
  by (auto simp: extends_def valid_def prefix_nth dest: prefix_length_le)

lemma extends_view:
  assumes "extends st st'" "valid st state"
  shows "view st' state = view st state"
proof -
  from assms have "state_objs st' ! state = state_objs st ! state"
    by (simp add: extends_def valid_def prefix_nth)
  moreover from assms
  have "list_objs st' ! (state_objs st ! state) = list_objs st ! (state_objs st ! state)"
    by (simp add: extends_def valid_def prefix_nth)
  ultimately show ?thesis
    by (simp add: view_def)
qed

lemma make_successor_spec:
  assumes "valid st state" "make_successor st state i player = (new_state, st')"
  shows "extends st st'" "valid st' new_state"
    "view st' new_state = successor (view st state) i player"
    "new_state = length (state_objs st)"
    "state_objs st' ! new_state = Suc (length (list_objs st))"
    "writes st' = writes st @ [Suc (length (list_objs st))]"
  using assms
  by (auto simp: make_successor_def new_State_def list_copy_def set_board_def list_setitem_def
      valid_def extends_def view_def successor_def Let_def nth_append list_update_append)

lemma explore_st_refines:
  assumes IH: "\<And>st state player depth alpha beta last_move.
      valid st state \<Longrightarrow> length (board (view st state)) = 9 \<Longrightarrow> empties (view st state) < fuel \<Longrightarrow>
      \<exists>st'. minimax_pruning_st fuel st state player depth alpha beta last_move
               = (Some (minimax_pruning (view st state) player depth alpha beta last_move), st')
            \<and> extends st st'"
  shows "valid st state \<Longrightarrow> length (board (view st state)) = 9 \<Longrightarrow>
         empties (view st state) \<le> fuel \<Longrightarrow>
         \<exists>st'. explore_st fuel st state player depth alpha beta rest scores moves
                  = (Some (explore (view st state) player depth alpha beta rest scores moves), st')
               \<and> extends st st'"
proof (induction rest arbitrary: st alpha beta scores moves)
  case Nil
  then show ?case by (simp add: explore.simps extends_refl)
next
  case (Cons i rest)
  show ?case
  proof (cases "i < length (board (view st state))")
    case False
    then show ?thesis by (simp add: explore.simps extends_refl)
  next
    case i: True
    show ?thesis
    proof (cases "board (view st state) ! i = None")
      case False
      from Cons.IH [OF Cons.prems, of alpha beta scores moves] i False show ?thesis
        by (auto simp: explore.simps)
    next
      case True
      obtain new_state st1 where ms: "make_successor st state i player = (new_state, st1)"
        by (cases "make_successor st state i player")
      note spec = make_successor_spec [OF Cons.prems(1) ms]
      have len1: "length (board (view st1 new_state)) = 9"
        using Cons.prems(2) by (simp add: spec(3) successor_def)
      have "empties (view st1 new_state) < empties (view st state)"
        unfolding spec(3) successor_def by (rule empties_place [OF i True])
      with Cons.prems(3) have e1: "empties (view st1 new_state) < fuel" by simp
      from IH [OF spec(2) len1 e1, of "opponent player" "depth - 1" alpha beta "Some i"]
      obtain st2 where
        child: "minimax_pruning_st fuel st1 new_state (opponent player) (depth - 1) alpha beta
                  (Some i)
                = (Some (minimax_pruning (successor (view st state) i player) (opponent player)
                           (depth - 1) alpha beta (Some i)), st2)"
        and ext12: "extends st1 st2"
        unfolding spec(3) by blast
      have ext02: "extends st st2"
        by (rule extends_trans [OF spec(1) ext12])
      show ?thesis
      proof (cases "minimax_pruning (successor (view st state) i player) (opponent player)
                      (depth - 1) alpha beta (Some i)")
        case (Inl e)
        with i True ms child ext02 show ?thesis
          by (simp add: explore.simps successor_def)
      next
        case (Inr r)
        obtain v mv where r: "r = (v, mv)" by (cases r)
        note pure = explore_blank [OF i True Inr [unfolded r], of rest scores moves]
        show ?thesis
        proof (cases "new_beta player beta v \<le> new_alpha player alpha v")
          case cut: True
          with i True ms child Inr r ext02 pure show ?thesis
            by (simp add: new_alpha_def new_beta_def)
        next
          case go: False
          have v2: "valid st2 state" by (rule extends_valid [OF ext02 Cons.prems(1)])
          have view2: "view st2 state = view st state"
            by (rule extends_view [OF ext02 Cons.prems(1)])
          from Cons.IH [OF v2, of "new_alpha player alpha v" "new_beta player beta v"
                          "scores @ [v]" "moves @ [Suc i]"] Cons.prems(2,3)
          obtain st3 where
            loop: "explore_st fuel st2 state player depth (new_alpha player alpha v)
                     (new_beta player beta v) rest (scores @ [v]) (moves @ [Suc i])
                   = (Some (explore (view st state) player depth (new_alpha player alpha v)
                              (new_beta player beta v) rest (scores @ [v]) (moves @ [Suc i])), st3)"
            and ext23: "extends st2 st3"
            unfolding view2 by blast
          have "extends st st3" by (rule extends_trans [OF ext02 ext23])
          with i True ms child Inr r pure go loop show ?thesis
            by (simp add: new_alpha_def new_beta_def)
        qed
      qed
    qed
  qed
qed

lemma minimax_pruning_st_refines:
  "valid st state \<Longrightarrow> length (board (view st state)) = 9 \<Longrightarrow> empties (view st state) < fuel \<Longrightarrow>
   \<exists>st'. minimax_pruning_st fuel st state player depth alpha beta last_move
            = (Some (minimax_pruning (view st state) player depth alpha beta last_move), st')
         \<and> extends st st'"
proof (induction fuel arbitrary: st state player depth alpha beta last_move)
  case 0
  then show ?case by simp
next
  case (Suc fuel)
  show ?case
  proof (cases "is_terminal (view st state) \<or> depth = 0")
    case True
    then show ?thesis
      by (auto simp: minimax_pruning_leaf is_terminal_def extends_refl)
  next
    case False
    then have nt: "\<not> is_terminal (view st state)" "depth \<noteq> 0" by simp_all
    from Suc.prems(3) have "empties (view st state) \<le> fuel" by simp
    from explore_st_refines [OF Suc.IH Suc.prems(1,2) this, of player depth alpha beta "[0..<9]" "[]" "[]"]
    obtain st' where
      loop: "explore_st fuel st state player depth alpha beta [0..<9] [] []
               = (Some (explore (view st state) player depth alpha beta [0..<9] [] []), st')"
      and ext: "extends st st'"
      by blast
    from nt loop ext show ?thesis
      by (auto simp: minimax_pruning_node is_terminal_def split: sum.splits)
  qed
qed

text \<open>
  Claim C8. A call of \<^verbatim>\<open>minimax_pruning\<close> on a valid state with a board of nine cells,
  given a call depth larger than the number of blank cells, returns; it returns what the
  value model returns; the board of the caller's state is the same afterwards; and the
  final store extends the initial one: no object that existed is changed and every list
  written during the call was allocated during the call. The successor for a blank cell
  \<open>i\<close> is a new \<^verbatim>\<open>State\<close> object whose board is a new list, equal to the parent's cell
  list with cell \<open>i\<close> set to the mover; building it writes to that new list only.
\<close>

theorem board_left_unchanged:
  assumes "valid st state" "length (board (view st state)) = 9" "empties (view st state) < fuel"
  shows "(\<exists>result st'.
            minimax_pruning_st fuel st state player depth alpha beta last_move = (Some result, st')
            \<and> result = minimax_pruning (view st state) player depth alpha beta last_move
            \<and> view st' state = view st state
            \<and> extends st st')
         \<and> (i < 9 \<and> board (view st state) ! i = None \<longrightarrow>
              (case make_successor st state i player of
                 (new_state, st1) \<Rightarrow>
                   new_state = length (state_objs st)
                   \<and> state_objs st1 ! new_state = Suc (length (list_objs st))
                   \<and> board (view st1 new_state) = (board (view st state))[i := Some player]
                   \<and> view st1 state = view st state
                   \<and> writes st1 = writes st @ [Suc (length (list_objs st))]
                   \<and> extends st st1))"
proof
  from minimax_pruning_st_refines [OF assms, of player depth alpha beta last_move]
  obtain st' where
    r: "minimax_pruning_st fuel st state player depth alpha beta last_move
          = (Some (minimax_pruning (view st state) player depth alpha beta last_move), st')"
    and ext: "extends st st'"
    by blast
  from extends_view [OF ext assms(1)] r ext
  show "\<exists>result st'.
            minimax_pruning_st fuel st state player depth alpha beta last_move = (Some result, st')
            \<and> result = minimax_pruning (view st state) player depth alpha beta last_move
            \<and> view st' state = view st state
            \<and> extends st st'"
    by blast
next
  obtain new_state st1 where ms: "make_successor st state i player = (new_state, st1)"
    by (cases "make_successor st state i player")
  note spec = make_successor_spec [OF assms(1) ms]
  from spec extends_view [OF spec(1) assms(1)]
  show "i < 9 \<and> board (view st state) ! i = None \<longrightarrow>
              (case make_successor st state i player of
                 (new_state, st1) \<Rightarrow>
                   new_state = length (state_objs st)
                   \<and> state_objs st1 ! new_state = Suc (length (list_objs st))
                   \<and> board (view st1 new_state) = (board (view st state))[i := Some player]
                   \<and> view st1 state = view st state
                   \<and> writes st1 = writes st @ [Suc (length (list_objs st))]
                   \<and> extends st st1)"
    by (simp add: ms successor_def)
qed

theorem board_left_unchanged_witness:
  "valid store_a 0 \<and> length (board (view store_a 0)) = 9 \<and> empties (view store_a 0) < 2
   \<and> (8::nat) < 9 \<and> board (view store_a 0) ! 8 = None
   \<and> (\<exists>st'. minimax_pruning_st 2 store_a 0 MarkX 1 NegInf PosInf None
               = (Some (Inr (0, Some 9)), st')
             \<and> view st' 0 = view store_a 0 \<and> extends store_a st')
   \<and> (case make_successor store_a 0 8 MarkX of
         (new_state, st1) \<Rightarrow>
           new_state = 1 \<and> state_objs st1 ! new_state = 2
           \<and> board (view st1 new_state) = (board (view store_a 0))[8 := Some MarkX]
           \<and> view st1 0 = view store_a 0 \<and> writes st1 = [2])"
proof -
  have h: "valid store_a 0" "length (board (view store_a 0)) = 9" "empties (view store_a 0) < 2"
    by (simp_all add: store_a_def valid_def view_def empties_def)
  have b: "(8::nat) < 9 \<and> board (view store_a 0) ! 8 = None"
    by (simp add: store_a_def view_def)
  have p: "minimax_pruning (view store_a 0) MarkX 1 NegInf PosInf None = Inr (0, Some 9)"
    by code_simp
  have l: "length (state_objs store_a) = 1" "length (list_objs store_a) = 1" "writes store_a = []"
    by (simp_all add: store_a_def)
  from board_left_unchanged [OF h, of MarkX 1 NegInf PosInf None 8] b p l
  show ?thesis
    using h by (auto split: prod.splits)
qed

end
